theory Spec2Isabelle
  imports Main "HOL-Library.AList"
begin

section \<open>Data\<close>

text \<open>
  One element of the \<open>results\<close> array of the search endpoint. The program reads four
  keys of it: \<open>id\<close>, \<open>title\<close>, \<open>price\<close> and \<open>permalink\<close>. The type of the price is
  left open (\<open>'p\<close>): the program never computes with it, it only stores it and puts
  \<open>str(price)\<close> into the message text. One \<open>char\<close> stands for one character of a Python
  \<open>str\<close>, so \<open>length\<close> is Python's \<open>len\<close>.
\<close>

record 'p offer =
  item_id :: string
  title :: string
  price :: 'p
  permalink :: string

text \<open>
  What one request of \<open>fetch_offers\<close> gives: \<open>requests.get\<close> or \<open>response.json()\<close>
  raises (\<open>Failure\<close>), or the body is parsed and \<open>data.get("results", [])\<close> is a list of
  offers (empty when the key is absent).
\<close>

datatype 'p response = Failure | Results "'p offer list"

text \<open>
  A Python \<open>dict\<close> keyed by offer id, as an association list in insertion order.
  \<open>d[k] = v\<close> is \<open>AList.update k v d\<close>: a key already present keeps its place and takes
  the new value, a new key goes to the end. \<open>list(d.values())\<close> is \<open>map snd d\<close>.
\<close>

type_synonym 'p dict = "(string \<times> 'p offer) list"

text \<open>
  A row of the table \<open>offers\<close> without its primary key, and the table as the list of its
  rows, each with its \<open>id\<close> in front. \<open>stamp\<close> is the column \<open>timestamp\<close>, which
  SQLite fills with \<open>CURRENT_TIMESTAMP\<close> when the row is inserted.
\<close>

record 'p row =
  row_title :: string
  row_price :: 'p
  row_permalink :: string
  stamp :: nat

type_synonym 'p table = "(string \<times> 'p row) list"

text \<open>
  What the program can change: the table, and the calls of
  \<open>twilio_client.messages.create\<close> made so far, each with its body and whether the call
  returned (\<open>True\<close>) or raised (\<open>False\<close>).
\<close>

record 'p world =
  db :: "'p table"
  outbox :: "(string \<times> bool) list"

text \<open>
  What the program reads from outside during one run:
  \<^item> \<open>api query offset\<close>: the answer of the endpoint to the request for that term and offset;
  \<^item> \<open>clock item\<close>: the value of \<open>CURRENT_TIMESTAMP\<close> when the \<open>INSERT\<close> for that offer runs;
  \<^item> \<open>twilio n body\<close>: the outcome of the call of \<open>messages.create\<close> with that body after
    \<open>n\<close> earlier calls, \<open>Inl\<close> the text of the exception, \<open>Inr\<close> the SID of the message;
  \<^item> \<open>price_str\<close>: Python's \<open>str\<close> on a price, as the f-string applies it.
\<close>

record 'p env =
  api :: "string \<Rightarrow> nat \<Rightarrow> 'p response"
  clock :: "'p offer \<Rightarrow> nat"
  twilio :: "nat \<Rightarrow> string \<Rightarrow> string + string"
  price_str :: "'p \<Rightarrow> string"

section \<open>fetch_offers\<close>

text \<open>\<open>range(0, 1001, 50)\<close>.\<close>

definition page_offsets :: "nat list" where
  "page_offsets = map (\<lambda>k. 50 * k) [0..<21]"

text \<open>
  The inner loop over one page: \<open>if item_id not in all_offers: all_offers[item_id] = item\<close>.
\<close>

definition add_results :: "'p offer list \<Rightarrow> 'p dict \<Rightarrow> 'p dict" where
  "add_results results all_offers =
     foldl (\<lambda>d item. if item_id item \<notin> fst ` set d
                      then AList.update (item_id item) item d else d)
       all_offers results"

text \<open>
  The loop over the offsets. The state is the list of the offsets requested so far and the
  dictionary \<open>all_offers\<close>. Each of the three \<open>break\<close>s ends the recursion: an exception,
  an empty page, and a page of fewer than 50 results after its offers are added.
\<close>

fun fetch_pages ::
  "(nat \<Rightarrow> 'p response) \<Rightarrow> nat list \<Rightarrow> nat list \<times> 'p dict \<Rightarrow> nat list \<times> 'p dict" where
  "fetch_pages get [] (requested, all_offers) = (requested, all_offers)"
| "fetch_pages get (offset # rest) (requested, all_offers) =
     (case get offset of
        Failure \<Rightarrow> (requested @ [offset], all_offers)
      | Results results \<Rightarrow>
          if results = [] then (requested @ [offset], all_offers)
          else if length results < 50
            then (requested @ [offset], add_results results all_offers)
            else fetch_pages get rest (requested @ [offset], add_results results all_offers))"

definition fetch_requests :: "'p env \<Rightarrow> string \<Rightarrow> nat list" where
  "fetch_requests e query = fst (fetch_pages (api e query) page_offsets ([], []))"

definition fetch_offers :: "'p env \<Rightarrow> string \<Rightarrow> 'p offer list" where
  "fetch_offers e query = map snd (snd (fetch_pages (api e query) page_offsets ([], [])))"

text \<open>
  Vocabulary of the statements about \<open>fetch_offers\<close>: the results of a response (none
  when the request failed), all records of the pages a call requested, in order, and the
  responses after which the loop breaks.
\<close>

definition results_of :: "'p response \<Rightarrow> 'p offer list" where
  "results_of r = (case r of Failure \<Rightarrow> [] | Results results \<Rightarrow> results)"

definition records_seen :: "'p env \<Rightarrow> string \<Rightarrow> 'p offer list" where
  "records_seen e query = concat (map (\<lambda>offset. results_of (api e query offset)) (fetch_requests e query))"

definition ends_pagination :: "'p response \<Rightarrow> bool" where
  "ends_pagination r = (case r of Failure \<Rightarrow> True | Results results \<Rightarrow> length results < 50)"

section \<open>The offer store\<close>

text \<open>
  \<open>SELECT id FROM offers\<close> made into a Python \<open>set\<close>. A set is kept as a list without
  duplicates; Python does not fix the order in which a set is iterated, and
  \<open>remove_in_any_order\<close> below shows that the store after the removals does not depend
  on it.
\<close>

definition get_existing_offer_ids :: "'p table \<Rightarrow> string list" where
  "get_existing_offer_ids t = remdups (map fst t)"

text \<open>
  \<open>INSERT OR IGNORE\<close> on a table whose primary key is \<open>id\<close>: nothing happens when a
  row with that id exists, otherwise the row is added with the current timestamp.
\<close>

definition add_offer_to_db :: "nat \<Rightarrow> 'p offer \<Rightarrow> 'p table \<Rightarrow> 'p table" where
  "add_offer_to_db now item t =
     (if item_id item \<in> fst ` set t then t
      else t @ [(item_id item,
                 \<lparr>row_title = title item, row_price = price item,
                  row_permalink = permalink item, stamp = now\<rparr>)])"

text \<open>\<open>DELETE FROM offers WHERE id = ?\<close>.\<close>

definition remove_offer_from_db :: "string \<Rightarrow> 'p table \<Rightarrow> 'p table" where
  "remove_offer_from_db offer_id t = filter (\<lambda>r. fst r \<noteq> offer_id) t"

section \<open>send_notification\<close>

definition header :: string where
  "header = ''New '' @ [CHR 0x27] @ ''Usado'' @ [CHR 0x27] @ '' offers found:'' @ [CHR 0x0A]"

text \<open>The f-string \<open>"- {title} for ${price}\n{link}\n\n"\<close>.\<close>

definition offer_text :: "'p env \<Rightarrow> 'p offer \<Rightarrow> string" where
  "offer_text e item =
     ''- '' @ title item @ '' for $'' @ price_str e (price item) @ [CHR 0x0A]
       @ permalink item @ [CHR 0x0A, CHR 0x0A]"

definition message_text :: "'p env \<Rightarrow> 'p offer list \<Rightarrow> string" where
  "message_text e new_offers = foldl (\<lambda>text item. text @ offer_text e item) header new_offers"

text \<open>
  One round of the loop of the fallback, on the pair of \<open>messages\<close> and
  \<open>current_message\<close>, and the loop with the final \<open>if current_message\<close>.
\<close>

definition pack_step :: "'p env \<Rightarrow> string list \<times> string \<Rightarrow> 'p offer \<Rightarrow> string list \<times> string" where
  "pack_step e s item =
     (case s of (messages, current_message) \<Rightarrow>
        if length current_message + length (offer_text e item) > 1600
        then (messages @ [current_message], offer_text e item)
        else (messages, current_message @ offer_text e item))"

definition split_messages :: "'p env \<Rightarrow> 'p offer list \<Rightarrow> string list" where
  "split_messages e new_offers =
     (case foldl (pack_step e) ([], header) new_offers of
        (messages, current_message) \<Rightarrow>
          if current_message \<noteq> [] then messages @ [current_message] else messages)"

text \<open>\<open>sub in s\<close> on Python strings.\<close>

fun starts_with :: "string \<Rightarrow> string \<Rightarrow> bool" where
  "starts_with [] s = True"
| "starts_with (c # cs) [] = False"
| "starts_with (c # cs) (d # ds) = (c = d \<and> starts_with cs ds)"

fun str_in :: "string \<Rightarrow> string \<Rightarrow> bool" where
  "str_in sub [] = (sub = [])"
| "str_in sub (c # cs) = (starts_with sub (c # cs) \<or> str_in sub cs)"

text \<open>One call of \<open>twilio_client.messages.create\<close>: the outcome and the world with the call recorded.\<close>

definition create_message :: "'p env \<Rightarrow> string \<Rightarrow> 'p world \<Rightarrow> (string + string) \<times> 'p world" where
  "create_message e body w =
     (let outcome = twilio e (length (outbox w)) body
      in (outcome, w\<lparr>outbox := outbox w @ [(body, \<not> isl outcome)]\<rparr>))"

text \<open>
  The whole message is tried first. Only when that call raises with a text containing
  \<open>1600\<close> are the parts sent, each in its own \<open>try\<close>: a part that fails is logged and
  the next one is sent.
\<close>

definition send_notification :: "'p env \<Rightarrow> 'p offer list \<Rightarrow> 'p world \<Rightarrow> 'p world" where
  "send_notification e new_offers w =
     (if new_offers = [] then w
      else case create_message e (message_text e new_offers) w of
        (Inr sid, w1) \<Rightarrow> w1
      | (Inl error_message, w1) \<Rightarrow>
          if str_in ''1600'' error_message
          then foldl (\<lambda>w' msg. snd (create_message e msg w')) w1 (split_messages e new_offers)
          else w1)"

section \<open>job\<close>

text \<open>
  The first loop of \<open>job\<close>: every term is fetched, in the order of the list, and every
  offer returned is written into one dictionary with \<open>all_current_offers[id] = item\<close>
  (\<open>merge_offers\<close> is the inner loop over the offers of one term).
\<close>

definition merge_offers :: "'p dict \<Rightarrow> 'p offer list \<Rightarrow> 'p dict" where
  "merge_offers all_current_offers offers =
     foldl (\<lambda>d item. AList.update (item_id item) item d) all_current_offers offers"

definition aggregate :: "'p env \<Rightarrow> string list \<Rightarrow> 'p dict" where
  "aggregate e lista_busquedas =
     foldl (\<lambda>all_current_offers query. merge_offers all_current_offers (fetch_offers e query))
       [] lista_busquedas"

text \<open>
  \<open>job\<close> returns nothing; the model returns, next to the world it leaves, the two values
  the run computes and logs, or that the run was skipped.
\<close>

datatype 'p report = Skipped | Finished (new_offers: "'p offer list") (disappeared_offer_ids: "string list")

definition job :: "'p env \<Rightarrow> string list \<Rightarrow> 'p world \<Rightarrow> 'p report \<times> 'p world" where
  "job e lista_busquedas w =
     (let current_offers = map snd (aggregate e lista_busquedas) in
      if current_offers = [] then (Skipped, w)
      else
        let existing_offer_ids = get_existing_offer_ids (db w);
            current_offer_ids = remdups (map item_id current_offers);
            new_offers = filter (\<lambda>item. item_id item \<notin> set existing_offer_ids) current_offers;
            w1 = w\<lparr>db := foldl (\<lambda>t item. add_offer_to_db (clock e item) item t) (db w) new_offers\<rparr>;
            disappeared_offer_ids = filter (\<lambda>i. i \<notin> set current_offer_ids) existing_offer_ids;
            w2 = w1\<lparr>db := foldl (\<lambda>t offer_id. remove_offer_from_db offer_id t) (db w1) disappeared_offer_ids\<rparr>;
            w3 = (if new_offers \<noteq> [] then send_notification e new_offers w2 else w2)
        in (Finished new_offers disappeared_offer_ids, w3))"

section \<open>Vocabulary of the proofs and concrete inputs\<close>

text \<open>
  The invariant of the dictionary of \<open>fetch_offers\<close>: its keys are distinct, and under
  every id it holds the first record with that id among the records seen so far.
\<close>

definition first_wins :: "'p dict \<Rightarrow> 'p offer list \<Rightarrow> bool" where
  "first_wins d seen =
     (distinct (map fst d) \<and> (\<forall>i. map_of d i = find (\<lambda>x. item_id x = i) seen))"

text \<open>
  A concrete endpoint, with prices carried as their text. The term \<open>RTX Usado\<close> has a
  full first page (49 copies of offer 1, then offer 2) and a second page of two offers,
  one of them another record with id 1. The term \<open>GTX Usado\<close> has a full first page and
  fails on the second request. The terms \<open>A\<close> and \<open>B\<close> have one short page each, with
  offer 1, and with another record of id 1 and offer 2. Every other request fails.
\<close>

definition mk_offer :: "string \<Rightarrow> string \<Rightarrow> string offer" where
  "mk_offer i t = \<lparr>item_id = i, title = t, price = ''100'', permalink = ''http://x/'' @ i\<rparr>"

definition demo_api :: "string \<Rightarrow> nat \<Rightarrow> string response" where
  "demo_api query offset =
     (if query = ''RTX Usado'' then
        (if offset = 0
           then Results (replicate 49 (mk_offer ''1'' ''first'') @ [mk_offer ''2'' ''second''])
         else if offset = 50 then Results [mk_offer ''1'' ''again'', mk_offer ''3'' ''third'']
         else Failure)
      else if query = ''GTX Usado'' then
        (if offset = 0 then Results (replicate 50 (mk_offer ''1'' ''other'')) else Failure)
      else if query = ''A'' then
        (if offset = 0 then Results [mk_offer ''1'' ''from A''] else Failure)
      else if query = ''B'' then
        (if offset = 0 then Results [mk_offer ''1'' ''from B'', mk_offer ''2'' ''two''] else Failure)
      else Failure)"

text \<open>
  The transport of the concrete environment refuses a body of more than 1600 characters
  with an error text that contains \<open>1600\<close>, and accepts every other body.
\<close>

definition demo_env :: "string env" where
  "demo_env =
     \<lparr>api = demo_api, clock = (\<lambda>item. 7),
      twilio = (\<lambda>n body. if length body > 1600 then Inl ''limit of 1600 exceeded'' else Inr ''SM1''),
      price_str = (\<lambda>s. s)\<rparr>"

text \<open>A store with the rows 0, 1 and 2, and no message sent.\<close>

definition demo_world :: "string world" where
  "demo_world =
     \<lparr>db = [(''0'', \<lparr>row_title = ''zero'', row_price = ''1'', row_permalink = ''http://x/0'', stamp = 1\<rparr>),
            (''1'', \<lparr>row_title = ''first'', row_price = ''100'', row_permalink = ''http://x/1'', stamp = 2\<rparr>),
            (''2'', \<lparr>row_title = ''second'', row_price = ''100'', row_permalink = ''http://x/2'', stamp = 3\<rparr>)],
      outbox = []\<rparr>"

text \<open>A store that holds offer 3 alone.\<close>

definition old_row :: "string row" where
  "old_row = \<lparr>row_title = ''old'', row_price = ''5'', row_permalink = ''http://x/3'', stamp = 1\<rparr>"

text \<open>The invariant of the merged dictionary of \<open>job\<close>: every record is stored under its own id.\<close>

definition keyed :: "'p dict \<Rightarrow> bool" where
  "keyed d = (\<forall>kv\<in>set d. item_id (snd kv) = fst kv)"

text \<open>
  The loop of the fallback as a recursion on the texts of the blocks: \<open>pack\<close> gives the
  parts, \<open>pack_groups\<close> the same parts as groups of units (the first group starts with
  the header line), and \<open>count_parts\<close> their number from the lengths alone.
\<close>

fun pack :: "string \<Rightarrow> string list \<Rightarrow> string list" where
  "pack current [] = (if current \<noteq> [] then [current] else [])"
| "pack current (t # ts) =
     (if length current + length t > 1600 then current # pack t ts else pack (current @ t) ts)"

fun pack_groups :: "string list \<Rightarrow> string list \<Rightarrow> string list list" where
  "pack_groups g [] = [g]"
| "pack_groups g (t # ts) =
     (if length (concat g) + length t > 1600 then g # pack_groups [t] ts
      else pack_groups (g @ [t]) ts)"

fun count_parts :: "nat \<Rightarrow> nat list \<Rightarrow> nat" where
  "count_parts c [] = 1"
| "count_parts c (n # ns) =
     (if c + n > 1600 then Suc (count_parts n ns) else count_parts (c + n) ns)"

text \<open>An offer whose title has \<open>n\<close> characters.\<close>

definition long_title :: "nat \<Rightarrow> string" where
  "long_title n = replicate n CHR ''a''"

definition big_offer :: "string \<Rightarrow> nat \<Rightarrow> string offer" where
  "big_offer i n = mk_offer i (long_title n)"

section \<open>Basic facts\<close>

lemma length_header: "length header = 26"
  by (simp add: header_def)

section \<open>Facts about fetch_offers\<close>

lemma find_append_case: "find P (xs @ ys) = (case find P xs of None \<Rightarrow> find P ys | Some x \<Rightarrow> Some x)"
  by (induction xs) auto

lemma first_wins_step:
  assumes "first_wins d seen"
  shows "first_wins (if item_id item \<notin> fst ` set d then AList.update (item_id item) item d else d) (seen @ [item])"
proof (cases "item_id item \<in> fst ` set d")
  case True
  then obtain v where "map_of d (item_id item) = Some v"
    by (metis domD dom_map_of_conv_image_fst)
  with assms have "find (\<lambda>x. item_id x = item_id item) seen = Some v" by (simp add: first_wins_def)
  with assms True show ?thesis
    by (auto simp: first_wins_def find_append_case split: option.splits)
next
  case False
  then have "map_of d (item_id item) = None"
    by (simp add: map_of_eq_None_iff)
  with assms False show ?thesis
    by (auto simp: first_wins_def find_append_case update_conv' distinct_update split: option.splits)
qed

lemma first_wins_add_results:
  "first_wins d seen \<Longrightarrow> first_wins (add_results results d) (seen @ results)"
proof (induction results arbitrary: d seen)
  case Nil then show ?case by (simp add: add_results_def)
next
  case (Cons item results)
  from first_wins_step[OF Cons.prems, of item] Cons.IH[of _ "seen @ [item]"]
  show ?case by (simp add: add_results_def)
qed

lemma fetch_pages_first_wins:
  "first_wins d seen \<Longrightarrow> fetch_pages get os (req, d) = (req', d') \<Longrightarrow>
   \<exists>new. req' = req @ new \<and> first_wins d' (seen @ concat (map (\<lambda>offset. results_of (get offset)) new))"
proof (induction os arbitrary: req d seen)
  case Nil
  then show ?case by auto
next
  case (Cons offset rest)
  show ?case
  proof (cases "get offset")
    case Failure
    with Cons.prems show ?thesis by (auto simp: results_of_def)
  next
    case (Results results)
    show ?thesis
    proof (cases "results = [] \<or> length results < 50")
      case True
      with Cons.prems Results first_wins_add_results[OF Cons.prems(1), of results]
      show ?thesis by (auto simp: results_of_def split: if_splits)
    next
      case False
      with Cons.prems Results have
        "fetch_pages get rest (req @ [offset], add_results results d) = (req', d')" by simp
      from Cons.IH[OF first_wins_add_results[OF Cons.prems(1), of results] this]
      obtain new where "req' = (req @ [offset]) @ new"
        "first_wins d' ((seen @ results) @ concat (map (\<lambda>offset. results_of (get offset)) new))"
        by blast
      then show ?thesis using Results
        by (intro exI[of _ "offset # new"]) (simp add: results_of_def)
    qed
  qed
qed

lemma find_values:
  "\<forall>kv\<in>set d. item_id (snd kv) = fst kv \<Longrightarrow> find (\<lambda>r. item_id r = i) (map snd d) = map_of d i"
  by (induction d) auto

lemma first_wins_values:
  assumes "first_wins d seen"
  shows "distinct (map item_id (map snd d))"
    and "find (\<lambda>r. item_id r = i) (map snd d) = find (\<lambda>x. item_id x = i) seen"
proof -
  have keys: "\<And>k v. (k, v) \<in> set d \<Longrightarrow> item_id v = k"
  proof -
    fix k v assume "(k, v) \<in> set d"
    with assms have "map_of d k = Some v"
      unfolding first_wins_def by (blast intro: map_of_is_SomeI)
    moreover from assms have "map_of d k = find (\<lambda>x. item_id x = k) seen"
      unfolding first_wins_def by blast
    ultimately have "find (\<lambda>x. item_id x = k) seen = Some v" by simp
    then show "item_id v = k" by (auto simp: find_Some_iff)
  qed
  then have eq: "map (item_id \<circ> snd) d = map fst d" by auto
  from assms have "distinct (map fst d)" by (simp add: first_wins_def)
  then show "distinct (map item_id (map snd d))" by (simp only: map_map eq)
  have "\<forall>kv\<in>set d. item_id (snd kv) = fst kv" using keys by auto
  then have "find (\<lambda>r. item_id r = i) (map snd d) = map_of d i"
    by (rule find_values)
  with assms show "find (\<lambda>r. item_id r = i) (map snd d) = find (\<lambda>x. item_id x = i) seen"
    by (simp add: first_wins_def)
qed

lemma fetch_offers_dedup:
  "distinct (map item_id (fetch_offers e query)) \<and>
   (\<forall>i. find (\<lambda>r. item_id r = i) (fetch_offers e query)
        = find (\<lambda>x. item_id x = i) (records_seen e query))"
proof -
  obtain req' d' where run: "fetch_pages (api e query) page_offsets ([], []) = (req', d')"
    by (cases "fetch_pages (api e query) page_offsets ([], [])")
  have "first_wins ([] :: 'a dict) []" by (simp add: first_wins_def)
  from fetch_pages_first_wins[OF this run]
  have "first_wins d' (concat (map (\<lambda>offset. results_of (api e query offset)) req'))" by auto
  from first_wins_values[OF this] run show ?thesis
    by (simp add: fetch_offers_def records_seen_def fetch_requests_def)
qed

lemma fetch_pages_requests:
  "\<exists>n. fst (fetch_pages get os (req, d)) = req @ take n os \<and> n \<le> length os \<and>
       (os \<noteq> [] \<longrightarrow> 0 < n) \<and>
       (\<forall>k. Suc k < n \<longrightarrow> \<not> ends_pagination (get (os ! k))) \<and>
       (n < length os \<longrightarrow> ends_pagination (get (os ! (n - 1))))"
proof (induction os arbitrary: req d)
  case Nil
  then show ?case by simp
next
  case (Cons offset rest)
  show ?case
  proof (cases "ends_pagination (get offset)")
    case True
    then have "fst (fetch_pages get (offset # rest) (req, d)) = req @ take 1 (offset # rest)"
      by (auto simp: ends_pagination_def split: response.splits)
    with True show ?thesis
      by (intro exI[of _ 1]) simp
  next
    case False
    then obtain results where r: "get offset = Results results" "\<not> length results < 50"
      by (auto simp: ends_pagination_def split: response.splits)
    then have step: "fetch_pages get (offset # rest) (req, d)
        = fetch_pages get rest (req @ [offset], add_results results d)"
      by auto
    from Cons.IH[of "req @ [offset]" "add_results results d"]
    obtain n where n: "fst (fetch_pages get rest (req @ [offset], add_results results d))
          = (req @ [offset]) @ take n rest" "n \<le> length rest" "rest \<noteq> [] \<longrightarrow> 0 < n"
        "\<forall>k. Suc k < n \<longrightarrow> \<not> ends_pagination (get (rest ! k))"
        "n < length rest \<longrightarrow> ends_pagination (get (rest ! (n - 1)))"
      by blast
    have "\<forall>k. Suc k < Suc n \<longrightarrow> \<not> ends_pagination (get ((offset # rest) ! k))"
    proof (intro allI impI)
      fix k assume "Suc k < Suc n"
      then show "\<not> ends_pagination (get ((offset # rest) ! k))"
        using False n(4) by (cases k) auto
    qed
    moreover have "Suc n < length (offset # rest) \<longrightarrow> ends_pagination (get ((offset # rest) ! (Suc n - 1)))"
      using n(3,5) by (cases n) auto
    ultimately show ?thesis using step n(1,2)
      by (intro exI[of _ "Suc n"]) simp
  qed
qed

lemma length_page_offsets: "length page_offsets = 21"
  by (simp add: page_offsets_def)

lemma nth_page_offsets: "k < 21 \<Longrightarrow> page_offsets ! k = 50 * k"
  by (simp add: page_offsets_def)

lemma take_page_offsets: "n \<le> 21 \<Longrightarrow> take n page_offsets = map (\<lambda>k. 50 * k) [0..<n]"
  by (simp add: page_offsets_def take_map)

lemma fetch_requests_shape:
  "\<exists>n. fetch_requests e query = map (\<lambda>k. 50 * k) [0..<n] \<and> 1 \<le> n \<and> n \<le> 21 \<and>
       (\<forall>k. Suc k < n \<longrightarrow> \<not> ends_pagination (api e query (50 * k))) \<and>
       (n < 21 \<longrightarrow> ends_pagination (api e query (50 * (n - 1))))"
proof -
  from fetch_pages_requests[of "api e query" page_offsets "[]" "[]"]
  obtain n where n: "fetch_requests e query = take n page_offsets" "n \<le> 21" "0 < n"
    "\<forall>k. Suc k < n \<longrightarrow> \<not> ends_pagination (api e query (page_offsets ! k))"
    "n < 21 \<longrightarrow> ends_pagination (api e query (page_offsets ! (n - 1)))"
    by (auto simp: fetch_requests_def length_page_offsets page_offsets_def)
  have "\<forall>k. Suc k < n \<longrightarrow> \<not> ends_pagination (api e query (50 * k))"
    using n(2,4) by (auto simp: nth_page_offsets)
  moreover have "n < 21 \<longrightarrow> ends_pagination (api e query (50 * (n - 1)))"
    using n(3,5) by (auto simp: nth_page_offsets)
  ultimately show ?thesis using n(1,2,3)
    by (intro exI[of _ n]) (simp add: take_page_offsets)
qed

lemma fetch_pages_failure:
  assumes "\<forall>offset\<in>set os1. \<not> ends_pagination (get offset)" and "get off = Failure"
  shows "fetch_pages get (os1 @ off # os2) (req, d)
       = (req @ os1 @ [off], foldl (\<lambda>d' offset. add_results (results_of (get offset)) d') d os1)"
  using assms
proof (induction os1 arbitrary: req d)
  case Nil
  then show ?case by simp
next
  case (Cons offset rest)
  then obtain results where r: "get offset = Results results" "\<not> length results < 50"
    by (auto simp: ends_pagination_def split: response.splits)
  then have "results \<noteq> []" by auto
  with r Cons show ?case by (simp add: results_of_def)
qed

lemma page_offsets_split:
  "k \<le> 20 \<Longrightarrow> page_offsets = map (\<lambda>j. 50 * j) [0..<k] @ (50 * k) # map (\<lambda>j. 50 * j) [Suc k..<21]"
proof -
  assume "k \<le> 20"
  then have "[0..<21] = [0..<k] @ [k..<21]"
    using upt_add_eq_append[of 0 k "21 - k"] by simp
  moreover from \<open>k \<le> 20\<close> have "[k..<21] = k # [Suc k..<21]"
    by (simp add: upt_conv_Cons)
  ultimately have "[0..<21] = [0..<k] @ k # [Suc k..<21]" by simp
  then show ?thesis by (simp add: page_offsets_def)
qed

lemma fetch_offers_failure:
  assumes "k \<le> 20" "api e query (50 * k) = Failure"
    "\<forall>j<k. \<not> ends_pagination (api e query (50 * j))"
  shows "fetch_offers e query
       = map snd (foldl (\<lambda>d j. add_results (results_of (api e query (50 * j))) d) [] [0..<k])"
proof -
  have "\<forall>offset\<in>set (map (\<lambda>j. 50 * j) [0..<k]). \<not> ends_pagination (api e query offset)"
    using assms(3) by auto
  from fetch_pages_failure[OF this assms(2), of "map (\<lambda>j. 50 * j) [Suc k..<21]" "[]" "[]"]
  show ?thesis
    by (simp add: fetch_offers_def page_offsets_split[OF assms(1)] foldl_map)
qed

lemma fetch_requests_failure:
  assumes "k \<le> 20" "api e query (50 * k) = Failure"
    "\<forall>j<k. \<not> ends_pagination (api e query (50 * j))"
  shows "fetch_requests e query = map (\<lambda>j. 50 * j) [0..<Suc k]"
proof -
  have "\<forall>offset\<in>set (map (\<lambda>j. 50 * j) [0..<k]). \<not> ends_pagination (api e query offset)"
    using assms(3) by auto
  from fetch_pages_failure[OF this assms(2), of "map (\<lambda>j. 50 * j) [Suc k..<21]" "[]" "[]"]
  show ?thesis
    by (simp add: fetch_requests_def page_offsets_split[OF assms(1)])
qed

lemma keys_merge_offers:
  "fst ` set (merge_offers d offers) = fst ` set d \<union> item_id ` set offers"
  unfolding merge_offers_def
  by (induction offers arbitrary: d) (auto simp: dom_update)

lemma keys_aggregate_from:
  "fst ` set (foldl (\<lambda>d q. merge_offers d (fetch_offers e q)) d0 terms)
     = fst ` set d0 \<union> (\<Union>q\<in>set terms. item_id ` set (fetch_offers e q))"
  by (induction terms arbitrary: d0) (auto simp: keys_merge_offers)

lemma keys_aggregate:
  "fst ` set (aggregate e terms) = (\<Union>q\<in>set terms. item_id ` set (fetch_offers e q))"
  by (simp add: aggregate_def keys_aggregate_from)

lemma job_skipped_iff: "fst (job e terms w) = Skipped \<longleftrightarrow> aggregate e terms = []"
  by (simp add: job_def Let_def)

lemma demo_rtx_requests: "fetch_requests demo_env ''RTX Usado'' = [0, 50]"
  by code_simp

lemma demo_rtx_offers:
  "fetch_offers demo_env ''RTX Usado''
     = [mk_offer ''1'' ''first'', mk_offer ''2'' ''second'', mk_offer ''3'' ''third'']"
  by code_simp

lemma demo_gtx_offers: "fetch_offers demo_env ''GTX Usado'' = [mk_offer ''1'' ''other'']"
  by code_simp

section \<open>Claims about fetch_offers\<close>

text \<open>
  C5. For every term and all page responses, \<open>fetch_offers\<close> returns every offer id
  at most once, and the record it returns for an id is the first record with that id in
  the sequence of all records of the pages the call fetched: a later record with the same
  id, on the same page or on a later one, is discarded.
\<close>

theorem fetch_offers_first_seen:
  "distinct (map item_id (fetch_offers e query)) \<and>
   (\<forall>i. find (\<lambda>r. item_id r = i) (fetch_offers e query)
        = find (\<lambda>x. item_id x = i) (records_seen e query))"
  by (rule fetch_offers_dedup)

theorem fetch_offers_first_seen_witness:
  "distinct (map item_id (fetch_offers demo_env ''RTX Usado'')) \<and>
   find (\<lambda>r. item_id r = ''1'') (fetch_offers demo_env ''RTX Usado'')
     = find (\<lambda>x. item_id x = ''1'') (records_seen demo_env ''RTX Usado'') \<and>
   find (\<lambda>r. item_id r = ''1'') (fetch_offers demo_env ''RTX Usado'')
     = Some (mk_offer ''1'' ''first'')"
proof -
  from fetch_offers_first_seen [of demo_env "''RTX Usado''"]
  have d: "distinct (map item_id (fetch_offers demo_env ''RTX Usado''))"
    and f: "find (\<lambda>r. item_id r = ''1'') (fetch_offers demo_env ''RTX Usado'')
              = find (\<lambda>x. item_id x = ''1'') (records_seen demo_env ''RTX Usado'')"
    by blast+
  have v: "find (\<lambda>r. item_id r = ''1'') (fetch_offers demo_env ''RTX Usado'')
             = Some (mk_offer ''1'' ''first'')"
    by (simp add: demo_rtx_offers mk_offer_def)
  from d f v show ?thesis by blast
qed

text \<open>
  C6. Every call of \<open>fetch_offers\<close> requests the offsets \<open>0, 50, 100, ...\<close> in this
  order, \<open>n\<close> of them with \<open>1 \<le> n \<le> 21\<close>, so none beyond 1000. No request follows a
  page that was empty or shorter than 50 results (or a failed request), and the requests
  stop before the 21st only after such a page.
\<close>

theorem fetch_offers_pagination:
  "\<exists>n. fetch_requests e query = map (\<lambda>k. 50 * k) [0..<n] \<and> 1 \<le> n \<and> n \<le> 21 \<and>
       (\<forall>k. Suc k < n \<longrightarrow> \<not> ends_pagination (api e query (50 * k))) \<and>
       (n < 21 \<longrightarrow> ends_pagination (api e query (50 * (n - 1))))"
  by (rule fetch_requests_shape)

theorem fetch_offers_pagination_witness:
  "fetch_requests demo_env ''RTX Usado'' = [0, 50] \<and>
   (\<exists>n. fetch_requests demo_env ''RTX Usado'' = map (\<lambda>k. 50 * k) [0..<n] \<and> 1 \<le> n \<and> n \<le> 21 \<and>
       (\<forall>k. Suc k < n \<longrightarrow> \<not> ends_pagination (api demo_env ''RTX Usado'' (50 * k))) \<and>
       (n < 21 \<longrightarrow> ends_pagination (api demo_env ''RTX Usado'' (50 * (n - 1)))))"
  using fetch_offers_pagination [of demo_env "''RTX Usado''"]
  by (simp only: demo_rtx_requests simp_thms)

text \<open>
  C8. When the request for the page at offset \<open>50 * k\<close> fails (and the loop reaches it:
  the \<open>k\<close> pages before it were full), \<open>fetch_offers\<close> makes no further request and
  returns exactly the offers accumulated from those \<open>k\<close> pages, none when \<open>k = 0\<close>. The run goes on:
  the offers of every term of the list are in the merged dictionary, and the run is not
  skipped as long as some term returned an offer.
\<close>

theorem fetch_failure_keeps_partial:
  assumes "k \<le> 20" and "api e query (50 * k) = Failure"
    and "\<forall>j<k. \<not> ends_pagination (api e query (50 * j))"
  shows "fetch_requests e query = map (\<lambda>j. 50 * j) [0..<Suc k] \<and>
         fetch_offers e query
           = map snd (foldl (\<lambda>d j. add_results (results_of (api e query (50 * j))) d) [] [0..<k]) \<and>
         (\<forall>q\<in>set terms. item_id ` set (fetch_offers e q) \<subseteq> fst ` set (aggregate e terms)) \<and>
         ((\<exists>q\<in>set terms. fetch_offers e q \<noteq> []) \<longrightarrow> fst (job e terms w) \<noteq> Skipped)"
proof -
  have keys: "\<forall>q\<in>set terms. item_id ` set (fetch_offers e q) \<subseteq> fst ` set (aggregate e terms)"
    by (auto simp: keys_aggregate)
  have "(\<exists>q\<in>set terms. fetch_offers e q \<noteq> []) \<longrightarrow> aggregate e terms \<noteq> []"
  proof
    assume "\<exists>q\<in>set terms. fetch_offers e q \<noteq> []"
    then obtain q where q: "q \<in> set terms" "fetch_offers e q \<noteq> []" by blast
    then obtain r where "r \<in> set (fetch_offers e q)"
      by (cases "fetch_offers e q") auto
    note q(1) this
    with keys have "item_id r \<in> fst ` set (aggregate e terms)" by blast
    then show "aggregate e terms \<noteq> []" by auto
  qed
  with keys fetch_offers_failure[OF assms] fetch_requests_failure[OF assms] show ?thesis
    by (simp add: job_skipped_iff)
qed

theorem fetch_failure_keeps_partial_witness:
  "(1::nat) \<le> 20 \<and> api demo_env ''GTX Usado'' (50 * 1) = Failure \<and>
   \<not> ends_pagination (api demo_env ''GTX Usado'' (50 * 0)) \<and>
   fetch_requests demo_env ''GTX Usado'' = map (\<lambda>j. 50 * j) [0..<Suc 1] \<and>
   fetch_offers demo_env ''GTX Usado''
     = map snd (foldl (\<lambda>d j. add_results (results_of (api demo_env ''GTX Usado'' (50 * j))) d) [] [0..<1]) \<and>
   item_id ` set (fetch_offers demo_env ''RTX Usado'')
     \<subseteq> fst ` set (aggregate demo_env [''GTX Usado'', ''RTX Usado'']) \<and>
   fst (job demo_env [''GTX Usado'', ''RTX Usado''] \<lparr>db = [], outbox = []\<rparr>) \<noteq> Skipped"
proof -
  have h1: "(1::nat) \<le> 20" by simp
  have h2: "api demo_env ''GTX Usado'' (50 * 1) = Failure"
    by (simp add: demo_env_def demo_api_def)
  have h3: "\<forall>j<1. \<not> ends_pagination (api demo_env ''GTX Usado'' (50 * j))"
    by (simp add: demo_env_def demo_api_def ends_pagination_def)
  have h4: "\<exists>q\<in>set [''GTX Usado'', ''RTX Usado'']. fetch_offers demo_env q \<noteq> []"
    by (simp add: demo_gtx_offers)
  have h5: "\<not> ends_pagination (api demo_env ''GTX Usado'' (50 * 0))"
    using h3 by simp
  from fetch_failure_keeps_partial [OF h1 h2 h3, of "[''GTX Usado'', ''RTX Usado'']" "\<lparr>db = [], outbox = []\<rparr>"]
    h1 h2 h4 h5
  show ?thesis by simp
qed

section \<open>Facts about the store\<close>

lemma set_existing_offer_ids: "set (get_existing_offer_ids t) = fst ` set t"
  by (simp add: get_existing_offer_ids_def)

lemma keys_add_offer: "fst ` set (add_offer_to_db now item t) = insert (item_id item) (fst ` set t)"
  by (auto simp: add_offer_to_db_def)

lemma distinct_add_offer:
  "distinct (map fst t) \<Longrightarrow> distinct (map fst (add_offer_to_db now item t))"
  by (auto simp: add_offer_to_db_def)

lemma keys_add_offers:
  "fst ` set (foldl (\<lambda>t item. add_offer_to_db (c item) item t) t items)
     = fst ` set t \<union> item_id ` set items"
  by (induction items arbitrary: t) (auto simp: keys_add_offer)

lemma remove_offers_filter:
  "foldl (\<lambda>t offer_id. remove_offer_from_db offer_id t) t ids = filter (\<lambda>r. fst r \<notin> set ids) t"
proof (induction ids arbitrary: t)
  case Nil
  then show ?case by simp
next
  case (Cons i ids)
  have "filter (\<lambda>r. fst r \<notin> set ids) (remove_offer_from_db i t)
          = filter (\<lambda>r. fst r \<notin> set (i # ids)) t"
    by (auto simp: remove_offer_from_db_def intro: filter_cong)
  with Cons.IH[of "remove_offer_from_db i t"] show ?case by simp
qed

lemma remove_in_any_order:
  "set ids = set ids' \<Longrightarrow>
   foldl (\<lambda>t offer_id. remove_offer_from_db offer_id t) t ids
     = foldl (\<lambda>t offer_id. remove_offer_from_db offer_id t) t ids'"
  by (simp add: remove_offers_filter)

lemma keys_remove_offers:
  "fst ` set (foldl (\<lambda>t offer_id. remove_offer_from_db offer_id t) t ids) = fst ` set t - set ids"
  by (auto simp: remove_offers_filter)

section \<open>Facts about send_notification and job\<close>

lemma db_create_message: "db (snd (create_message e body w)) = db w"
  by (simp add: create_message_def Let_def)

lemma db_create_messages:
  "db (foldl (\<lambda>w' msg. snd (create_message e msg w')) w msgs) = db w"
  by (induction msgs arbitrary: w) (simp_all add: db_create_message)

lemma db_send_notification: "db (send_notification e offers w) = db w"
proof -
  obtain r w1 where c: "create_message e (message_text e offers) w = (r, w1)"
    by (cases "create_message e (message_text e offers) w")
  then have "db w1 = db w" using db_create_message[of e "message_text e offers" w] by simp
  with c show ?thesis
    by (cases r) (simp_all add: send_notification_def db_create_messages)
qed

lemma keyed_update: "keyed d \<Longrightarrow> keyed (AList.update (item_id v) v d)"
  unfolding keyed_def by (induction d) auto

lemma keyed_merge_offers: "keyed d \<Longrightarrow> keyed (merge_offers d offers)"
  unfolding merge_offers_def by (induction offers arbitrary: d) (auto simp: keyed_update)

lemma keyed_aggregate_from:
  "keyed d0 \<Longrightarrow> keyed (foldl (\<lambda>d q. merge_offers d (fetch_offers e q)) d0 terms)"
  by (induction terms arbitrary: d0) (auto simp: keyed_merge_offers)

lemma keyed_aggregate: "keyed (aggregate e terms)"
  unfolding aggregate_def by (rule keyed_aggregate_from) (simp add: keyed_def)

lemma current_ids_aggregate:
  "item_id ` set (map snd (aggregate e terms)) = fst ` set (aggregate e terms)"
  using keyed_aggregate[of e terms] unfolding keyed_def by force

lemma job_finished:
  assumes "aggregate e terms \<noteq> []"
  shows "fst (job e terms w)
           = Finished (filter (\<lambda>item. item_id item \<notin> set (get_existing_offer_ids (db w)))
                         (map snd (aggregate e terms)))
                      (filter (\<lambda>i. i \<notin> item_id ` set (map snd (aggregate e terms)))
                         (get_existing_offer_ids (db w)))"
  using assms by (simp add: job_def Let_def image_image)

lemma job_db:
  assumes "aggregate e terms \<noteq> []"
  shows "fst ` set (db (snd (job e terms w))) = item_id ` set (map snd (aggregate e terms))"
proof -
  let ?cur = "map snd (aggregate e terms)"
  let ?ex = "get_existing_offer_ids (db w)"
  let ?new = "filter (\<lambda>item. item_id item \<notin> set ?ex) ?cur"
  let ?gone = "filter (\<lambda>i. i \<notin> set (remdups (map item_id ?cur))) ?ex"
  let ?t1 = "foldl (\<lambda>t item. add_offer_to_db (clock e item) item t) (db w) ?new"
  let ?t2 = "foldl (\<lambda>t offer_id. remove_offer_from_db offer_id t) ?t1 ?gone"
  have "db (snd (job e terms w)) = ?t2"
    using assms by (simp add: job_def Let_def db_send_notification)
  moreover have "fst ` set ?t2 = item_id ` set ?cur"
    by (auto simp: keys_remove_offers keys_add_offers set_existing_offer_ids)
  ultimately show ?thesis by simp
qed

lemma map_of_merge_offers:
  "map_of (merge_offers d offers) i
     = (case find (\<lambda>x. item_id x = i) (rev offers) of None \<Rightarrow> map_of d i | Some x \<Rightarrow> Some x)"
  unfolding merge_offers_def
  by (induction offers arbitrary: d)
     (auto simp: find_append_case update_conv' split: option.splits)

lemma find_by_distinct_id:
  "distinct (map item_id ys) \<Longrightarrow> r \<in> set ys \<Longrightarrow> find (\<lambda>x. item_id x = item_id r) ys = Some r"
  by (induction ys) (auto simp: rev_image_eqI)

lemma map_of_aggregate_later:
  "\<forall>t'\<in>set later. i \<notin> item_id ` set (fetch_offers e t') \<Longrightarrow>
   map_of (foldl (\<lambda>d q. merge_offers d (fetch_offers e q)) d0 later) i = map_of d0 i"
proof (induction later arbitrary: d0)
  case Nil
  then show ?case by simp
next
  case (Cons t' later)
  then have "find (\<lambda>x. item_id x = i) (rev (fetch_offers e t')) = None"
    by (auto simp: find_None_iff)
  then have "map_of (merge_offers d0 (fetch_offers e t')) i = map_of d0 i"
    by (simp add: map_of_merge_offers)
  with Cons show ?case by simp
qed

lemma fetch_offers_first_page:
  assumes "api e query 0 = Results results" and "length results < 50"
  shows "fetch_offers e query = map snd (add_results results [])"
proof -
  have po: "page_offsets = 0 # map (\<lambda>k. 50 * k) [1..<21]"
    by (simp add: page_offsets_def upt_conv_Cons)
  show ?thesis
    unfolding fetch_offers_def po using assms
    by (cases "results = []") (simp_all add: add_results_def)
qed

lemma one_row_per_id:
  "distinct (map fst t) \<Longrightarrow> k \<in> fst ` set t \<Longrightarrow> length (filter (\<lambda>r. fst r = k) t) = 1"
  by (induction t) (auto simp: filter_empty_conv image_iff)

lemma add_offer_twice:
  "item_id item' = item_id item \<Longrightarrow>
   add_offer_to_db now' item' (add_offer_to_db now item t) = add_offer_to_db now item t"
  by (auto simp: add_offer_to_db_def)

lemma map_of_add_new_offer:
  "item_id item \<notin> fst ` set t \<Longrightarrow>
   map_of (add_offer_to_db now item t) (item_id item)
     = Some \<lparr>row_title = title item, row_price = price item,
             row_permalink = permalink item, stamp = now\<rparr>"
proof -
  assume new: "item_id item \<notin> fst ` set t"
  then have "map_of t (item_id item) = None" by (simp add: map_of_eq_None_iff)
  with new show ?thesis by (simp add: add_offer_to_db_def map_add_def)
qed

section \<open>Claims about job and the store\<close>

text \<open>
  C1. In every run whose merged offer set is not empty, \<open>new_offers\<close> are exactly the
  offers of the merged set whose id is not among the ids of the store, unchanged and in
  the order of the merged set, and \<open>disappeared_offer_ids\<close> is exactly the set of the
  ids of the store that are not ids of the merged set.
\<close>

theorem job_diff:
  assumes "aggregate e terms \<noteq> []"
  shows "fst (job e terms w) \<noteq> Skipped \<and>
         new_offers (fst (job e terms w))
           = filter (\<lambda>item. item_id item \<notin> set (get_existing_offer_ids (db w)))
               (map snd (aggregate e terms)) \<and>
         set (disappeared_offer_ids (fst (job e terms w)))
           = set (get_existing_offer_ids (db w)) - item_id ` set (map snd (aggregate e terms))"
  using job_finished[OF assms, of w] by auto

theorem job_diff_witness:
  "aggregate demo_env [''RTX Usado''] \<noteq> [] \<and>
   new_offers (fst (job demo_env [''RTX Usado''] demo_world)) = [mk_offer ''3'' ''third''] \<and>
   set (disappeared_offer_ids (fst (job demo_env [''RTX Usado''] demo_world))) = {''0''}"
proof -
  have a: "aggregate demo_env [''RTX Usado'']
             = [(''1'', mk_offer ''1'' ''first''), (''2'', mk_offer ''2'' ''second''),
                (''3'', mk_offer ''3'' ''third'')]"
    by (simp add: aggregate_def merge_offers_def demo_rtx_offers mk_offer_def)
  then have ne: "aggregate demo_env [''RTX Usado''] \<noteq> []" by simp
  from job_diff [OF ne, of demo_world] ne show ?thesis
    by (auto simp: a get_existing_offer_ids_def demo_world_def mk_offer_def)
qed


text \<open>
  C2. Whatever the store holds, when the merged offer set of all terms is empty the run
  is skipped and leaves the world as it was: no row is inserted or removed, and
  \<open>messages.create\<close> is not called.
\<close>

theorem job_empty_guard:
  assumes "aggregate e terms = []"
  shows "job e terms w = (Skipped, w)"
  using assms by (simp add: job_def)

theorem job_empty_guard_witness:
  "aggregate demo_env [''none'', ''nothing''] = [] \<and>
   job demo_env [''none'', ''nothing''] demo_world = (Skipped, demo_world)"
proof -
  have "fetch_offers demo_env ''none'' = []" "fetch_offers demo_env ''nothing'' = []"
    by code_simp+
  then have a: "aggregate demo_env [''none'', ''nothing''] = []"
    by (simp add: aggregate_def merge_offers_def)
  from job_empty_guard [OF a, of demo_world] a show ?thesis by simp
qed

text \<open>
  C7. When several terms return an offer id, the merged dictionary holds under that id
  the record of the last of these terms in the order of the list: a record \<open>r\<close> returned
  for term \<open>t\<close> is the one of the merged dictionary when no term after \<open>t\<close> returns its id,
  whatever the terms before \<open>t\<close> returned.
\<close>

theorem aggregate_last_write_wins:
  assumes "r \<in> set (fetch_offers e t)"
    and "\<forall>t'\<in>set later. item_id r \<notin> item_id ` set (fetch_offers e t')"
  shows "map_of (aggregate e (earlier @ t # later)) (item_id r) = Some r"
proof -
  have "distinct (map item_id (rev (fetch_offers e t)))"
    using fetch_offers_dedup[of e t] by (simp add: rev_map[symmetric])
  with assms(1) have "find (\<lambda>x. item_id x = item_id r) (rev (fetch_offers e t)) = Some r"
    by (simp add: find_by_distinct_id)
  then have "map_of (merge_offers (aggregate e earlier) (fetch_offers e t)) (item_id r) = Some r"
    by (simp add: map_of_merge_offers)
  with map_of_aggregate_later[OF assms(2)] show ?thesis
    by (simp add: aggregate_def)
qed

theorem aggregate_last_write_wins_witness:
  "mk_offer ''1'' ''from B'' \<in> set (fetch_offers demo_env ''B'') \<and>
   map_of (aggregate demo_env ([''A''] @ ''B'' # [])) (item_id (mk_offer ''1'' ''from B''))
     = Some (mk_offer ''1'' ''from B'')"
proof -
  have b: "fetch_offers demo_env ''B'' = [mk_offer ''1'' ''from B'', mk_offer ''2'' ''two'']"
    by code_simp
  then have h: "mk_offer ''1'' ''from B'' \<in> set (fetch_offers demo_env ''B'')" by simp
  from aggregate_last_write_wins [OF h, of "[]" "[''A'']"] h show ?thesis by simp
qed

text \<open>
  C9. \<open>add_offer_to_db\<close> does nothing for an offer whose id the table holds. On a table
  with distinct ids, adding two offers of one id one after the other gives the table the
  first addition gave, with exactly one row of that id; when the id was new, that row has
  the fields of the first offer and the timestamp of the first addition.
\<close>

theorem add_offer_idempotent:
  "(item_id item \<in> fst ` set t \<longrightarrow> add_offer_to_db now item t = t) \<and>
   (distinct (map fst t) \<and> item_id item' = item_id item \<longrightarrow>
      add_offer_to_db now' item' (add_offer_to_db now item t) = add_offer_to_db now item t \<and>
      length (filter (\<lambda>r. fst r = item_id item) (add_offer_to_db now' item' (add_offer_to_db now item t))) = 1 \<and>
      (item_id item \<notin> fst ` set t \<longrightarrow>
         map_of (add_offer_to_db now' item' (add_offer_to_db now item t)) (item_id item)
           = Some \<lparr>row_title = title item, row_price = price item,
                   row_permalink = permalink item, stamp = now\<rparr>))"
proof -
  have "item_id item' = item_id item \<longrightarrow>
      add_offer_to_db now' item' (add_offer_to_db now item t) = add_offer_to_db now item t"
    by (simp add: add_offer_twice)
  moreover have "distinct (map fst t) \<longrightarrow>
      length (filter (\<lambda>r. fst r = item_id item) (add_offer_to_db now item t)) = 1"
    by (simp add: one_row_per_id distinct_add_offer keys_add_offer)
  ultimately show ?thesis
    by (simp add: map_of_add_new_offer) (simp add: add_offer_to_db_def)
qed

theorem add_offer_idempotent_witness:
  "distinct (map fst (db demo_world)) \<and>
   item_id (mk_offer ''9'' ''again'') = item_id (mk_offer ''9'' ''nine'') \<and>
   item_id (mk_offer ''9'' ''nine'') \<notin> fst ` set (db demo_world) \<and>
   add_offer_to_db 8 (mk_offer ''9'' ''again'') (add_offer_to_db 7 (mk_offer ''9'' ''nine'') (db demo_world))
     = add_offer_to_db 7 (mk_offer ''9'' ''nine'') (db demo_world) \<and>
   map_of (add_offer_to_db 8 (mk_offer ''9'' ''again'') (add_offer_to_db 7 (mk_offer ''9'' ''nine'') (db demo_world))) ''9''
     = Some \<lparr>row_title = ''nine'', row_price = ''100'', row_permalink = ''http://x/9'', stamp = 7\<rparr>"
proof -
  have h1: "distinct (map fst (db demo_world))" by (simp add: demo_world_def)
  have h2: "item_id (mk_offer ''9'' ''again'') = item_id (mk_offer ''9'' ''nine'')"
    by (simp add: mk_offer_def)
  have h3: "item_id (mk_offer ''9'' ''nine'') \<notin> fst ` set (db demo_world)"
    by (simp add: demo_world_def mk_offer_def)
  from add_offer_idempotent [of "mk_offer ''9'' ''nine''" "db demo_world" 7 "mk_offer ''9'' ''again''" 8]
    h1 h2 h3
  show ?thesis by (auto simp: mk_offer_def)
qed

text \<open>
  C4. After a run whose merged offer set is not empty, the ids the store holds are exactly
  the ids of the merged set: every new offer is in the store and no disappeared id is.
  In particular, with the terms \<open>A\<close> and \<open>B\<close>, where \<open>A\<close> returns one record with id 1
  and \<open>B\<close> returns records with the ids 1 and 2, a store that holds id 3 alone, and a
  transport that accepts the message, the run finds the new offers 1 and 2 (the records
  \<open>B\<close> returned), the disappeared id 3, leaves the store with the rows 1 and 2, and calls
  the transport once, with the message that lists both offers.
\<close>

theorem job_store_matches_current:
  "(aggregate e terms \<noteq> [] \<longrightarrow>
      set (get_existing_offer_ids (db (snd (job e terms w))))
        = item_id ` set (map snd (aggregate e terms)) \<and>
      item_id ` set (new_offers (fst (job e terms w)))
        \<subseteq> set (get_existing_offer_ids (db (snd (job e terms w)))) \<and>
      set (disappeared_offer_ids (fst (job e terms w)))
        \<inter> set (get_existing_offer_ids (db (snd (job e terms w)))) = {}) \<and>
   (api e ''A'' 0 = Results [a] \<and> api e ''B'' 0 = Results [b, c] \<and>
    item_id a = ''1'' \<and> item_id b = ''1'' \<and> item_id c = ''2'' \<and>
    twilio e 0 (message_text e [b, c]) = Inr sid \<longrightarrow>
      job e [''A'', ''B''] \<lparr>db = [(''3'', r3)], outbox = []\<rparr>
        = (Finished [b, c] [''3''],
           \<lparr>db = [(''1'', \<lparr>row_title = title b, row_price = price b,
                           row_permalink = permalink b, stamp = clock e b\<rparr>),
                  (''2'', \<lparr>row_title = title c, row_price = price c,
                           row_permalink = permalink c, stamp = clock e c\<rparr>)],
            outbox = [(message_text e [b, c], True)]\<rparr>))"
proof (intro conjI impI)
  assume ne: "aggregate e terms \<noteq> []"
  from job_db[OF ne, of w]
  show keys: "set (get_existing_offer_ids (db (snd (job e terms w))))
        = item_id ` set (map snd (aggregate e terms))"
    by (simp add: set_existing_offer_ids)
  from job_finished[OF ne, of w]
  show "item_id ` set (new_offers (fst (job e terms w)))
        \<subseteq> set (get_existing_offer_ids (db (snd (job e terms w))))"
    unfolding keys by auto
  from job_finished[OF ne, of w]
  show "set (disappeared_offer_ids (fst (job e terms w)))
        \<inter> set (get_existing_offer_ids (db (snd (job e terms w)))) = {}"
    unfolding keys by auto
next
  assume h: "api e ''A'' 0 = Results [a] \<and> api e ''B'' 0 = Results [b, c] \<and>
    item_id a = ''1'' \<and> item_id b = ''1'' \<and> item_id c = ''2'' \<and>
    twilio e 0 (message_text e [b, c]) = Inr sid"
  then have fa: "fetch_offers e ''A'' = [a]"
    using fetch_offers_first_page[of e "''A''" "[a]"] by (simp add: add_results_def)
  from h have fb: "fetch_offers e ''B'' = [b, c]"
    using fetch_offers_first_page[of e "''B''" "[b, c]"] by (simp add: add_results_def)
  from h have agg: "aggregate e [''A'', ''B''] = [(''1'', b), (''2'', c)]"
    by (simp add: aggregate_def merge_offers_def fa fb)
  from h have sent: "send_notification e [b, c] \<lparr>db = t, outbox = []\<rparr>
      = \<lparr>db = t, outbox = [(message_text e [b, c], True)]\<rparr>" for t :: "'a table"
    by (simp add: send_notification_def create_message_def)
  from h show "job e [''A'', ''B''] \<lparr>db = [(''3'', r3)], outbox = []\<rparr>
        = (Finished [b, c] [''3''],
           \<lparr>db = [(''1'', \<lparr>row_title = title b, row_price = price b,
                           row_permalink = permalink b, stamp = clock e b\<rparr>),
                  (''2'', \<lparr>row_title = title c, row_price = price c,
                           row_permalink = permalink c, stamp = clock e c\<rparr>)],
            outbox = [(message_text e [b, c], True)]\<rparr>)"
    by (simp add: job_def Let_def agg get_existing_offer_ids_def add_offer_to_db_def
        remove_offer_from_db_def sent)
qed

theorem job_store_matches_current_witness:
  "aggregate demo_env [''A'', ''B''] \<noteq> [] \<and>
   twilio demo_env 0 (message_text demo_env [mk_offer ''1'' ''from B'', mk_offer ''2'' ''two'']) = Inr ''SM1'' \<and>
   set (get_existing_offer_ids (db (snd (job demo_env [''A'', ''B''] \<lparr>db = [(''3'', old_row)], outbox = []\<rparr>))))
     = {''1'', ''2''} \<and>
   fst (job demo_env [''A'', ''B''] \<lparr>db = [(''3'', old_row)], outbox = []\<rparr>)
     = Finished [mk_offer ''1'' ''from B'', mk_offer ''2'' ''two''] [''3''] \<and>
   outbox (snd (job demo_env [''A'', ''B''] \<lparr>db = [(''3'', old_row)], outbox = []\<rparr>))
     = [(message_text demo_env [mk_offer ''1'' ''from B'', mk_offer ''2'' ''two''], True)]"
proof -
  let ?b = "mk_offer ''1'' ''from B''" and ?c = "mk_offer ''2'' ''two''"
  have api: "api demo_env ''A'' 0 = Results [mk_offer ''1'' ''from A'']"
    "api demo_env ''B'' 0 = Results [?b, ?c]"
    by (simp_all add: demo_env_def demo_api_def)
  have ids: "item_id (mk_offer ''1'' ''from A'') = ''1''" "item_id ?b = ''1''" "item_id ?c = ''2''"
    by (simp_all add: mk_offer_def)
  have ok: "twilio demo_env 0 (message_text demo_env [?b, ?c]) = Inr ''SM1''"
    by (simp add: demo_env_def message_text_def offer_text_def header_def mk_offer_def)
  have "fetch_offers demo_env ''B'' = [?b, ?c]" by code_simp
  then have ne: "aggregate demo_env [''A'', ''B''] \<noteq> []"
    by (simp add: aggregate_def merge_offers_def)
  from job_store_matches_current
    [of demo_env "[''A'', ''B'']" "\<lparr>db = [(''3'', old_row)], outbox = []\<rparr>"
        "mk_offer ''1'' ''from A''" ?b ?c "''SM1''" old_row]
    api ids ok ne
  have run: "job demo_env [''A'', ''B''] \<lparr>db = [(''3'', old_row)], outbox = []\<rparr>
        = (Finished [?b, ?c] [''3''],
           \<lparr>db = [(''1'', \<lparr>row_title = title ?b, row_price = price ?b,
                           row_permalink = permalink ?b, stamp = clock demo_env ?b\<rparr>),
                  (''2'', \<lparr>row_title = title ?c, row_price = price ?c,
                           row_permalink = permalink ?c, stamp = clock demo_env ?c\<rparr>)],
            outbox = [(message_text demo_env [?b, ?c], True)]\<rparr>)"
    by blast
  show ?thesis
    unfolding run using ne ok by (auto simp: get_existing_offer_ids_def)
qed

section \<open>Facts about the packing of the fallback\<close>

lemma split_messages_loop:
  "(case foldl (pack_step e) (messages, current) offers of
      (m, c) \<Rightarrow> if c \<noteq> [] then m @ [c] else m)
   = messages @ pack current (map (offer_text e) offers)"
  by (induction offers arbitrary: messages current) (simp_all add: pack_step_def)

lemma split_messages_pack:
  "split_messages e offers = pack header (map (offer_text e) offers)"
  using split_messages_loop[of e "[]" header offers] by (simp add: split_messages_def)

lemma offer_text_nonempty: "offer_text e item \<noteq> []"
  by (simp add: offer_text_def)

lemma header_nonempty: "header \<noteq> []"
  by (simp add: header_def)

lemma blocks_nonempty: "[] \<notin> set (map (offer_text e) offers)"
  by (auto simp: offer_text_def)

lemma pack_as_groups:
  "concat g \<noteq> [] \<Longrightarrow> [] \<notin> set ts \<Longrightarrow> pack (concat g) ts = map concat (pack_groups g ts)"
proof (induction ts arbitrary: g)
  case Nil
  then show ?case by simp
next
  case (Cons t ts)
  then have t: "t \<noteq> []" "[] \<notin> set ts" by auto
  have a: "pack t ts = map concat (pack_groups [t] ts)"
    using Cons.IH[of "[t]"] t by simp
  have b: "pack (concat g @ t) ts = map concat (pack_groups (g @ [t]) ts)"
    using Cons.IH[of "g @ [t]"] t by simp
  show ?case using a b by simp
qed

lemma concat_pack_groups: "concat (pack_groups g ts) = g @ ts"
  by (induction ts arbitrary: g) auto

lemma pack_groups_nonempty: "g \<noteq> [] \<Longrightarrow> [] \<notin> set (pack_groups g ts)"
  by (induction ts arbitrary: g) auto

lemma pack_groups_shape:
  "\<exists>more rest. pack_groups g ts = (g @ more) # rest \<and> more @ concat rest = ts \<and>
     [] \<notin> set rest \<and>
     (ts \<noteq> [] \<longrightarrow> (more \<noteq> [] \<longleftrightarrow> length (concat g) + length (hd ts) \<le> 1600))"
proof (induction ts arbitrary: g)
  case Nil
  then show ?case by simp
next
  case (Cons t ts)
  show ?case
  proof (cases "length (concat g) + length t > 1600")
    case True
    then show ?thesis
      by (intro exI[of _ "[]"] exI[of _ "pack_groups [t] ts"])
         (simp add: concat_pack_groups pack_groups_nonempty)
  next
    case False
    from Cons.IH[of "g @ [t]"]
    obtain more rest where fr: "pack_groups (g @ [t]) ts = ((g @ [t]) @ more) # rest"
      "more @ concat rest = ts" "[] \<notin> set rest"
      by blast
    with False show ?thesis
      by (intro exI[of _ "t # more"] exI[of _ rest]) simp
  qed
qed

lemma pack_bounded:
  "length current \<le> 1600 \<Longrightarrow> \<forall>t\<in>set ts. length t \<le> 1600 \<Longrightarrow>
   \<forall>part\<in>set (pack current ts). length part \<le> 1600"
proof (induction ts arbitrary: current)
  case Nil
  then show ?case by simp
next
  case (Cons t ts)
  then have t: "length t \<le> 1600" "\<forall>t\<in>set ts. length t \<le> 1600" by auto
  show ?case
  proof (cases "length current + length t > 1600")
    case True
    with Cons.IH[OF t] Cons.prems(1) show ?thesis by simp
  next
    case False
    then have "length (current @ t) \<le> 1600" by simp
    from Cons.IH[OF this t(2)] False show ?thesis by simp
  qed
qed

lemma length_pack:
  "current \<noteq> [] \<Longrightarrow> [] \<notin> set ts \<Longrightarrow>
   length (pack current ts) = count_parts (length current) (map length ts)"
  by (induction ts arbitrary: current) auto

lemma count_parts_mono_slack:
  "(\<forall>c d. c \<le> d \<longrightarrow> count_parts c ns \<le> count_parts d ns) \<and>
   (\<forall>c d. count_parts c ns \<le> Suc (count_parts d ns))"
proof (induction ns)
  case Nil
  then show ?case by simp
next
  case (Cons n ns)
  then have mono: "\<And>c d. c \<le> d \<Longrightarrow> count_parts c ns \<le> count_parts d ns"
    and slack: "\<And>c d. count_parts c ns \<le> Suc (count_parts d ns)"
    by blast+
  have "count_parts c (n # ns) \<le> count_parts d (n # ns)" if "c \<le> d" for c d
    using that mono[of "c + n" "d + n"] slack[of "c + n" n] by auto
  moreover have "count_parts c (n # ns) \<le> Suc (count_parts d (n # ns))" for c d
    using mono[of n "d + n"] slack[of "c + n" n] slack[of "c + n" "d + n"] by auto
  ultimately show ?case by blast
qed

lemma count_parts_slack: "count_parts c ns \<le> Suc (count_parts d ns)"
  using count_parts_mono_slack by blast

lemma count_parts_head_group:
  assumes rest: "rest \<noteq> [] \<Longrightarrow> count_parts 0 (concat rest) \<le> length rest"
  shows "c + sum_list g \<le> 1600 \<Longrightarrow> count_parts c (g @ concat rest) \<le> Suc (length rest)"
proof (induction g arbitrary: c)
  case Nil
  show ?case
  proof (cases "rest = []")
    case True
    then show ?thesis by simp
  next
    case False
    from rest[OF False] count_parts_slack[of c "concat rest" 0] show ?thesis by simp
  qed
next
  case (Cons n g)
  then have "(c + n) + sum_list g \<le> 1600" by simp
  from Cons.IH[OF this] Cons.prems show ?case by simp
qed

lemma count_parts_optimal:
  "groups \<noteq> [] \<Longrightarrow> \<forall>g\<in>set groups. sum_list g \<le> 1600 \<Longrightarrow>
   count_parts 0 (concat groups) \<le> length groups"
proof (induction groups)
  case Nil
  then show ?case by simp
next
  case (Cons g rest)
  then have "rest \<noteq> [] \<Longrightarrow> count_parts 0 (concat rest) \<le> length rest" by simp
  from count_parts_head_group[OF this, of 0 g] Cons.prems show ?case by simp
qed

lemma split_messages_count:
  "length (split_messages e offers)
     = count_parts 0 (map length (header # map (offer_text e) offers))"
proof -
  from length_pack[OF header_nonempty blocks_nonempty] show ?thesis
    by (simp add: split_messages_pack length_header)
qed

lemma count_parts_units:
  "c + k \<le> 1600 \<Longrightarrow> count_parts c (replicate k (Suc 0) @ ns) = count_parts (c + k) ns"
  by (induction k arbitrary: c) simp_all

lemma split_messages_optimal:
  assumes "concat groups = map (\<lambda>c. [c]) header @ map (offer_text e) offers"
    and "\<forall>g\<in>set groups. length (concat g) \<le> 1600"
  shows "length (split_messages e offers) \<le> length groups"
proof -
  let ?ns = "map (map length) groups"
  have "concat ?ns = map length (map (\<lambda>c. [c]) header @ map (offer_text e) offers)"
    using assms(1) by (simp add: map_concat[symmetric])
  also have "\<dots> = replicate 26 1 @ map length (map (offer_text e) offers)"
    by (simp add: comp_def map_replicate_const length_header)
  finally have c: "concat ?ns = replicate 26 1 @ map length (map (offer_text e) offers)" .
  have "groups \<noteq> []" using assms(1) header_nonempty by auto
  then have ne: "?ns \<noteq> []" by simp
  have "\<forall>g\<in>set ?ns. sum_list g \<le> 1600"
    using assms(2) by (auto simp: length_concat)
  from count_parts_optimal[OF ne this] show ?thesis
    unfolding c split_messages_count by (simp add: count_parts_units length_header)
qed

lemma split_messages_groups:
  "\<exists>first rest. split_messages e offers = (header @ concat first) # map concat rest \<and>
     first @ concat rest = map (offer_text e) offers \<and> [] \<notin> set rest \<and>
     (offers \<noteq> [] \<longrightarrow> (first \<noteq> [] \<longleftrightarrow> length header + length (offer_text e (hd offers)) \<le> 1600))"
proof -
  let ?ts = "map (offer_text e) offers"
  have ne: "[] \<notin> set ?ts" by (rule blocks_nonempty)
  from pack_groups_shape[of "[header]" ?ts]
  obtain first rest where fr: "pack_groups [header] ?ts = (header # first) # rest"
    "first @ concat rest = ?ts" "[] \<notin> set rest"
    "?ts \<noteq> [] \<longrightarrow> (first \<noteq> [] \<longleftrightarrow> length header + length (hd ?ts) \<le> 1600)"
    by auto
  have "split_messages e offers = map concat (pack_groups [header] ?ts)"
    using pack_as_groups[of "[header]" ?ts] ne by (simp add: split_messages_pack header_nonempty)
  with fr show ?thesis
    by (intro exI[of _ first] exI[of _ rest]) (auto simp: hd_map)
qed

lemma split_messages_bounded:
  "\<forall>item\<in>set offers. length (offer_text e item) \<le> 1600 \<Longrightarrow>
   \<forall>part\<in>set (split_messages e offers). length part \<le> 1600"
  unfolding split_messages_pack
  by (rule pack_bounded) (auto simp: length_header)

lemma outbox_create_messages:
  "map fst (outbox (foldl (\<lambda>w' msg. snd (create_message e msg w')) w msgs))
     = map fst (outbox w) @ msgs"
  by (induction msgs arbitrary: w) (simp_all add: create_message_def Let_def)

lemma send_notification_fallback:
  assumes "offers \<noteq> []"
    and "twilio e (length (outbox w)) (message_text e offers) = Inl error_message"
    and "str_in ''1600'' error_message"
  shows "map fst (outbox (send_notification e offers w))
           = map fst (outbox w) @ message_text e offers # split_messages e offers"
proof -
  have c: "create_message e (message_text e offers) w
             = (Inl error_message, w\<lparr>outbox := outbox w @ [(message_text e offers, False)]\<rparr>)"
    using assms(2) by (simp add: create_message_def)
  show ?thesis
    using assms(1,3) by (simp add: send_notification_def c outbox_create_messages)
qed

lemma length_big_offer_text:
  "length (offer_text demo_env (big_offer i n)) = n + length i + 23"
  by (simp add: offer_text_def demo_env_def big_offer_def mk_offer_def long_title_def)

lemma demo_twilio_rejects:
  "1600 < length body \<Longrightarrow> twilio demo_env n body = Inl ''limit of 1600 exceeded''"
  by (simp add: demo_env_def)

lemma demo_error_mentions_limit: "str_in ''1600'' ''limit of 1600 exceeded''"
  by simp

section \<open>Claims about the parts of a notification\<close>

text \<open>
  C3. When no offer block is longer than 1600 characters, every part the fallback
  produces has at most 1600 characters. The parts are the message text cut between
  blocks: the first part is the header line followed by whole blocks, every later part is
  one or more whole blocks, and the blocks of all parts in order are the blocks
  of the new offers, so no block is divided and the header is at the start of the first
  part only. The number of parts is minimal: no way of cutting the message text (the
  header line, then the blocks in the order of the offers) into pieces of at most 1600
  characters has fewer pieces, when no cut falls inside a block. A piece is a group of
  units here, the units being the single characters of the header line and the whole
  blocks, so that a cut inside the header line is allowed. These parts are what
  \<open>send_notification\<close> passes to the transport after the whole message was refused
  with an error that mentions 1600.
\<close>

theorem split_messages_minimal:
  assumes "\<forall>item\<in>set offers. length (offer_text e item) \<le> 1600"
  shows "(\<forall>part\<in>set (split_messages e offers). length part \<le> 1600) \<and>
         (\<exists>first rest. split_messages e offers = (header @ concat first) # map concat rest \<and>
            first @ concat rest = map (offer_text e) offers \<and> [] \<notin> set rest) \<and>
         (\<forall>groups. concat groups = map (\<lambda>c. [c]) header @ map (offer_text e) offers \<and>
            (\<forall>g\<in>set groups. length (concat g) \<le> 1600) \<longrightarrow>
            length (split_messages e offers) \<le> length groups) \<and>
         (offers \<noteq> [] \<and> twilio e (length (outbox w)) (message_text e offers) = Inl error_message \<and>
          str_in ''1600'' error_message \<longrightarrow>
            map fst (outbox (send_notification e offers w))
              = map fst (outbox w) @ message_text e offers # split_messages e offers)"
proof (intro conjI allI impI)
  from split_messages_bounded[OF assms]
  show "\<forall>part\<in>set (split_messages e offers). length part \<le> 1600" .
  from split_messages_groups[of e offers]
  show "\<exists>first rest. split_messages e offers = (header @ concat first) # map concat rest \<and>
            first @ concat rest = map (offer_text e) offers \<and> [] \<notin> set rest"
    by blast
next
  fix groups
  assume "concat groups = map (\<lambda>c. [c]) header @ map (offer_text e) offers \<and>
            (\<forall>g\<in>set groups. length (concat g) \<le> 1600)"
  then show "length (split_messages e offers) \<le> length groups"
    using split_messages_optimal[of groups e offers] by blast
next
  assume "offers \<noteq> [] \<and> twilio e (length (outbox w)) (message_text e offers) = Inl error_message \<and>
          str_in ''1600'' error_message"
  then show "map fst (outbox (send_notification e offers w))
              = map fst (outbox w) @ message_text e offers # split_messages e offers"
    using send_notification_fallback[of offers e w error_message] by blast
qed

theorem split_messages_minimal_witness:
  "length (offer_text demo_env (big_offer ''5'' 700)) \<le> 1600 \<and>
   length (offer_text demo_env (big_offer ''6'' 700)) \<le> 1600 \<and>
   length (offer_text demo_env (big_offer ''7'' 700)) \<le> 1600 \<and>
   1600 < length (message_text demo_env [big_offer ''5'' 700, big_offer ''6'' 700, big_offer ''7'' 700]) \<and>
   split_messages demo_env [big_offer ''5'' 700, big_offer ''6'' 700, big_offer ''7'' 700]
     = [header @ offer_text demo_env (big_offer ''5'' 700) @ offer_text demo_env (big_offer ''6'' 700),
        offer_text demo_env (big_offer ''7'' 700)] \<and>
   length (split_messages demo_env [big_offer ''5'' 700, big_offer ''6'' 700, big_offer ''7'' 700])
     \<le> length [map (\<lambda>c. [c]) header,
                [offer_text demo_env (big_offer ''5'' 700), offer_text demo_env (big_offer ''6'' 700)],
                [offer_text demo_env (big_offer ''7'' 700)]] \<and>
   map fst (outbox (send_notification demo_env
       [big_offer ''5'' 700, big_offer ''6'' 700, big_offer ''7'' 700] \<lparr>db = [], outbox = []\<rparr>))
     = [message_text demo_env [big_offer ''5'' 700, big_offer ''6'' 700, big_offer ''7'' 700],
        header @ offer_text demo_env (big_offer ''5'' 700) @ offer_text demo_env (big_offer ''6'' 700),
        offer_text demo_env (big_offer ''7'' 700)]"
proof -
  let ?a = "big_offer ''5'' 700" and ?b = "big_offer ''6'' 700" and ?c = "big_offer ''7'' 700"
  let ?w = "\<lparr>db = [], outbox = []\<rparr> :: string world"
  have len: "length (offer_text demo_env ?a) = 724" "length (offer_text demo_env ?b) = 724"
    "length (offer_text demo_env ?c) = 724"
    by (simp_all add: length_big_offer_text)
  have h: "\<forall>item\<in>set [?a, ?b, ?c]. length (offer_text demo_env item) \<le> 1600"
    by (simp add: len)
  have big: "1600 < length (message_text demo_env [?a, ?b, ?c])"
    by (simp add: message_text_def len length_header)
  have parts: "split_messages demo_env [?a, ?b, ?c]
      = [header @ offer_text demo_env ?a @ offer_text demo_env ?b, offer_text demo_env ?c]"
    by (simp add: split_messages_def pack_step_def len length_header offer_text_nonempty)
  have refused: "twilio demo_env (length (outbox ?w)) (message_text demo_env [?a, ?b, ?c])
      = Inl ''limit of 1600 exceeded''"
    using big by (rule demo_twilio_rejects)
  have alt: "concat [map (\<lambda>c. [c]) header, [offer_text demo_env ?a, offer_text demo_env ?b],
        [offer_text demo_env ?c]]
      = map (\<lambda>c. [c]) header @ map (offer_text demo_env) [?a, ?b, ?c]"
    by simp
  have alt_ok: "\<forall>g\<in>set [map (\<lambda>c. [c]) header, [offer_text demo_env ?a, offer_text demo_env ?b],
        [offer_text demo_env ?c]]. length (concat g) \<le> 1600"
    by (simp add: len length_header)
  from split_messages_minimal[OF h, of ?w "''limit of 1600 exceeded''"]
  have min: "\<forall>groups. concat groups = map (\<lambda>c. [c]) header @ map (offer_text demo_env) [?a, ?b, ?c] \<and>
            (\<forall>g\<in>set groups. length (concat g) \<le> 1600) \<longrightarrow>
            length (split_messages demo_env [?a, ?b, ?c]) \<le> length groups"
    and sent: "[?a, ?b, ?c] \<noteq> [] \<and>
          twilio demo_env (length (outbox ?w)) (message_text demo_env [?a, ?b, ?c])
            = Inl ''limit of 1600 exceeded'' \<and>
          str_in ''1600'' ''limit of 1600 exceeded'' \<longrightarrow>
            map fst (outbox (send_notification demo_env [?a, ?b, ?c] ?w))
              = map fst (outbox ?w) @ message_text demo_env [?a, ?b, ?c]
                  # split_messages demo_env [?a, ?b, ?c]"
    by blast+
  from min alt alt_ok
  have le: "length (split_messages demo_env [?a, ?b, ?c])
     \<le> length [map (\<lambda>c. [c]) header, [offer_text demo_env ?a, offer_text demo_env ?b],
          [offer_text demo_env ?c]]"
    by blast
  from sent refused demo_error_mentions_limit
  have out: "map fst (outbox (send_notification demo_env [?a, ?b, ?c] ?w))
      = message_text demo_env [?a, ?b, ?c] # split_messages demo_env [?a, ?b, ?c]"
    by simp
  show ?thesis
    using len big le out unfolding parts by simp
qed

text \<open>
  C10, as the code has it. The parts of the fallback are the header line followed by
  whole blocks, and then groups of one or more whole blocks: every part after the first
  holds at least one complete offer block. The first part holds a block exactly when the
  header line and the first block together have at most 1600 characters; when they have
  more, the first part is the header line alone.
\<close>

theorem parts_hold_blocks:
  assumes "offers \<noteq> []"
  shows "\<exists>first rest. split_messages e offers = (header @ concat first) # map concat rest \<and>
           first @ concat rest = map (offer_text e) offers \<and> [] \<notin> set rest \<and>
           (first \<noteq> [] \<longleftrightarrow> length header + length (offer_text e (hd offers)) \<le> 1600)"
  using split_messages_groups[of e offers] assms by blast

theorem parts_hold_blocks_witness:
  "[big_offer ''5'' 700, big_offer ''6'' 700] \<noteq> [] \<and>
   (\<exists>first rest. split_messages demo_env [big_offer ''5'' 700, big_offer ''6'' 700]
        = (header @ concat first) # map concat rest \<and>
      first @ concat rest = map (offer_text demo_env) [big_offer ''5'' 700, big_offer ''6'' 700] \<and>
      [] \<notin> set rest \<and>
      (first \<noteq> [] \<longleftrightarrow>
         length header + length (offer_text demo_env (hd [big_offer ''5'' 700, big_offer ''6'' 700])) \<le> 1600)) \<and>
   length header + length (offer_text demo_env (big_offer ''5'' 700)) \<le> 1600"
proof -
  have ne: "[big_offer ''5'' 700, big_offer ''6'' 700] \<noteq> []" by simp
  have fits: "length header + length (offer_text demo_env (big_offer ''5'' 700)) \<le> 1600"
    by (simp add: length_big_offer_text length_header)
  from parts_hold_blocks[OF ne, of demo_env] ne fits show ?thesis by blast
qed

text \<open>
  The claim C10 as it is written fails for one offer whose block has 1584 characters:
  the message of 1610 characters is refused, and the fallback sends the header line alone
  as its first part and the block as its second.
\<close>

theorem header_only_part:
  "map fst (outbox (send_notification demo_env [big_offer ''8'' 1560] \<lparr>db = [], outbox = []\<rparr>))
     = [message_text demo_env [big_offer ''8'' 1560], header, offer_text demo_env (big_offer ''8'' 1560)] \<and>
   split_messages demo_env [big_offer ''8'' 1560] = [header, offer_text demo_env (big_offer ''8'' 1560)] \<and>
   length (offer_text demo_env (big_offer ''8'' 1560)) = 1584"
proof -
  let ?a = "big_offer ''8'' 1560"
  let ?w = "\<lparr>db = [], outbox = []\<rparr> :: string world"
  have len: "length (offer_text demo_env ?a) = 1584"
    by (simp add: length_big_offer_text)
  have parts: "split_messages demo_env [?a] = [header, offer_text demo_env ?a]"
    by (simp add: split_messages_def pack_step_def len length_header offer_text_nonempty)
  have "1600 < length (message_text demo_env [?a])"
    by (simp add: message_text_def len length_header)
  then have "twilio demo_env (length (outbox ?w)) (message_text demo_env [?a])
      = Inl ''limit of 1600 exceeded''"
    by (rule demo_twilio_rejects)
  from send_notification_fallback[OF _ this demo_error_mentions_limit]
  have "map fst (outbox (send_notification demo_env [?a] ?w))
      = message_text demo_env [?a] # split_messages demo_env [?a]"
    by simp
  with parts len show ?thesis by simp
qed

end
